theory Spec2Isabelle
  imports Main "HOL-Library.Multiset" "HOL-Library.AList" "HOL-Library.List_Lexorder"
    "HOL-Library.Product_Lexorder"
begin

section \<open>Characters, strings and text files\<close>

text \<open>
  A Python \<open>str\<close> is a sequence of Unicode code points, so a character is modelled by its
  code point \<open>ord(c)\<close> and a string by a list of code points. A text file, once opened and
  decoded, is the list of its lines (\<open>for line in file\<close>); a directory is the list of its
  files in the order \<open>os.listdir\<close> returns them.
\<close>

type_synonym uchar = nat
type_synonym ustring = "uchar list"
type_synonym textfile = "ustring list"

text \<open>
  \<open>str.lower()\<close> on the repertoire of the cp1251 code page the sample texts are stored in:
  Latin \<open>A..Z\<close>, Cyrillic \<open>U+0410..U+042F\<close> (to \<open>U+0430..U+044F\<close>), the Cyrillic
  extensions \<open>U+0400..U+040F\<close> (to \<open>U+0450..U+045F\<close>, among them \<open>U+0401\<close> to
  \<open>U+0451\<close>) and \<open>U+0490\<close>; every other character of the code page is caseless.
\<close>

definition lower_char :: "uchar \<Rightarrow> uchar" where
  "lower_char c =
     (if 65 \<le> c \<and> c \<le> 90 then c + 32
      else if 1040 \<le> c \<and> c \<le> 1071 then c + 32
      else if 1024 \<le> c \<and> c \<le> 1039 then c + 80
      else if c = 1168 then 1169
      else c)"

definition lower :: "ustring \<Rightarrow> ustring" where
  "lower s = map lower_char s"

section \<open>Frequency tables\<close>

text \<open>
  A \<open>dict\<close> or \<open>collections.Counter\<close> from characters to integer counts. Reading a
  Counter at a missing key gives 0; \<open>Counter(iterable)\<close> counts the elements one by one;
  \<open>a + b\<close> adds the counts key by key and keeps only the keys whose sum is positive.
\<close>

type_synonym counter = "uchar \<rightharpoonup> int"

datatype error = NameError | TypeError | UnboundLocalError | ValueError

definition counter_get :: "counter \<Rightarrow> uchar \<Rightarrow> int" where
  "counter_get c k = (case c k of None \<Rightarrow> 0 | Some n \<Rightarrow> n)"

fun Counter_update :: "counter \<Rightarrow> uchar list \<Rightarrow> counter" where
  "Counter_update c [] = c"
| "Counter_update c (x # xs) = Counter_update (c(x \<mapsto> counter_get c x + 1)) xs"

definition Counter :: "uchar list \<Rightarrow> counter" where
  "Counter xs = Counter_update Map.empty xs"

definition Counter_add :: "counter \<Rightarrow> counter \<Rightarrow> counter" where
  "Counter_add a b = (\<lambda>k.
     case a k of
       Some x \<Rightarrow> (if x + counter_get b k > 0 then Some (x + counter_get b k) else None)
     | None \<Rightarrow> (case b k of
                  Some y \<Rightarrow> (if y > 0 then Some y else None)
                | None \<Rightarrow> None))"

text \<open>
  \<open>functools.reduce(operator.add, tallies)\<close> without an initial value: a \<open>TypeError\<close> on
  the empty list, the only element itself on a singleton, the left-nested sum otherwise.
\<close>

fun reduce_add :: "counter list \<Rightarrow> error + counter" where
  "reduce_add [] = Inl TypeError"
| "reduce_add (c # cs) = Inr (foldl Counter_add c cs)"

text \<open>
  The merge loop of the sequential \<open>count_in_dir\<close>: \<open>total = Counter()\<close>, then
  \<open>total = total + chars_in_file\<close> for every tally.
\<close>

definition merge_total :: "counter list \<Rightarrow> counter" where
  "merge_total ts = foldl Counter_add Map.empty ts"

definition nonneg :: "counter \<Rightarrow> bool" where
  "nonneg c = (\<forall>k v. c k = Some v \<longrightarrow> 0 \<le> v)"

definition keep_positive :: "int \<Rightarrow> int option" where
  "keep_positive n = (if n > 0 then Some n else None)"

section \<open>Letter counting\<close>

text \<open>
  \<open>count_letters2(file_name)\<close>, and \<open>counting(file_name)\<close> of the per-file drivers:
  \<open>rus_symb = set(chr(symb) for symb in range(ord('a'), ord('ya') + 1))\<close> is the set of the
  code points 1072 to 1103, and the table is
  \<open>Counter(chain.from_iterable((c for c in line.lower() if c in rus_symb) for line in file))\<close>.
\<close>

definition rus_symb :: "uchar set" where
  "rus_symb = {1072 ..< 1103 + 1}"

definition count_letters2 :: "textfile \<Rightarrow> counter" where
  "count_letters2 file =
     Counter (concat (map (\<lambda>line. filter (\<lambda>c. c \<in> rus_symb) (lower line)) file))"

text \<open>
  \<open>counting(slices)\<close> of the chunked driver: the same alphabet, applied to a string that
  was lowercased by the caller.
\<close>

definition counting :: "ustring \<Rightarrow> counter" where
  "counting slices = Counter (filter (\<lambda>c. c \<in> rus_symb) slices)"

text \<open>
  The cp1251 \<open>count_letters\<close> of the lecture notebook. Its alphabet is
  \<open>range(ord('a'), ord('ya'))\<close>, the code points 1072 to 1102, and the element expression of
  its generator is not the loop variable but another identifier, which no cell of the
  notebook binds: evaluating it raises \<open>NameError\<close>. A generator is lazy, so the name is
  looked up once for each character that passes the filter, when \<open>Counter\<close> asks for the
  next element.
\<close>

definition rus_symb_cp1251 :: "uchar set" where
  "rus_symb_cp1251 = {1072 ..< 1103}"

definition genexpr_line :: "ustring \<Rightarrow> (error + uchar) list" where
  "genexpr_line line = map (\<lambda>c. Inl NameError) (filter (\<lambda>c. c \<in> rus_symb_cp1251) (lower line))"

fun Counter_consume :: "counter \<Rightarrow> (error + uchar) list \<Rightarrow> error + counter" where
  "Counter_consume c [] = Inr c"
| "Counter_consume c (Inl e # xs) = Inl e"
| "Counter_consume c (Inr x # xs) = Counter_consume (c(x \<mapsto> counter_get c x + 1)) xs"

definition count_letters :: "textfile \<Rightarrow> error + counter" where
  "count_letters file = Counter_consume Map.empty (concat (map genexpr_line file))"

text \<open>
  \<open>count_chars_in_book(path)\<close> of the unnamed notebook: a plain \<open>dict\<close>, filled character
  by character; \<open>re.match(r'[a-ya]', char)\<close> on a one-character string holds exactly for
  the code points 1072 to 1103. A character seen for the first time is stored with 0.
\<close>

definition re_match :: "uchar \<Rightarrow> bool" where
  "re_match char = (1072 \<le> char \<and> char \<le> 1103)"

definition count_char :: "uchar \<Rightarrow> counter \<Rightarrow> counter" where
  "count_char char chars =
     (if re_match char then
        (case chars char of
           Some n \<Rightarrow> chars(char \<mapsto> n + 1)
         | None \<Rightarrow> chars(char \<mapsto> 0))
      else chars)"

definition count_chars_in_book :: "textfile \<Rightarrow> counter" where
  "count_chars_in_book txt = fold (\<lambda>line chars. fold count_char (lower line) chars) txt Map.empty"

text \<open>
  The sequential \<open>count_in_dir(dir_name)\<close> of the unnamed notebook: \<open>total = Counter()\<close>,
  then \<open>total = total + Counter(count_chars_in_book(path))\<close> for every file, and
  \<open>dict(total)\<close> at the end.
\<close>

definition count_in_dir :: "textfile list \<Rightarrow> counter" where
  "count_in_dir files = foldl (\<lambda>total file. Counter_add total (count_chars_in_book file)) Map.empty files"

section \<open>Splitting one text into contiguous ranges\<close>

text \<open>
  The ranges of the chunked cell: \<open>b = len(file) // cpu\<close> and the slice
  \<open>file[b*i : b*(i+1)]\<close> for every \<open>i\<close> in \<open>range(cpu)\<close>. A slice \<open>s[i:j]\<close> with
  \<open>0 \<le> i \<le> j\<close> is clipped at the end of the string.
\<close>

definition slice :: "ustring \<Rightarrow> nat \<Rightarrow> nat \<Rightarrow> ustring" where
  "slice s i j = take (j - i) (drop i s)"

definition chunks :: "nat \<Rightarrow> ustring \<Rightarrow> ustring list" where
  "chunks cpu file =
     (let b = length file div cpu
      in map (\<lambda>i. slice file (b * i) (b * (i + 1))) [0..<cpu])"

section \<open>Worker processes on a shared job queue\<close>

text \<open>
  The queue worker \<open>counting(queue, output)\<close>: \<open>while True\<close>, take a job with
  \<open>queue.get()\<close>, leave the loop when it is \<open>None\<close>, otherwise count the letters of the
  file and \<open>output.put(cnt)\<close>. The processes run concurrently, so the system is a state
  (the job queue, the results queue in arrival order, where every worker stands in its
  loop) and one atomic action of one worker at a time: a \<open>get\<close> or a \<open>put\<close>. A worker
  that calls \<open>get\<close> on an empty queue blocks, as does one that has left its loop: it has
  no action.
\<close>

datatype status = Waiting | Holding counter | Exited

record workers =
  queue :: "textfile option list"
  output_queue :: "counter list"
  procs :: "status list"

fun is_exited :: "status \<Rightarrow> bool" where
  "is_exited Exited = True"
| "is_exited _ = False"

fun is_holding :: "status \<Rightarrow> bool" where
  "is_holding (Holding cnt) = True"
| "is_holding _ = False"

definition step :: "nat \<Rightarrow> workers \<Rightarrow> workers option" where
  "step w s =
     (if w < length (procs s) then
        (case procs s ! w of
           Exited \<Rightarrow> None
         | Holding cnt \<Rightarrow>
             Some (s\<lparr>output_queue := output_queue s @ [cnt], procs := (procs s)[w := Waiting]\<rparr>)
         | Waiting \<Rightarrow>
             (case queue s of
                [] \<Rightarrow> None
              | None # q \<Rightarrow> Some (s\<lparr>queue := q, procs := (procs s)[w := Exited]\<rparr>)
              | Some job # q \<Rightarrow>
                  Some (s\<lparr>queue := q, procs := (procs s)[w := Holding (count_letters2 job)]\<rparr>)))
      else None)"

text \<open>
  The driver fills the queue before it starts the processes: every file name, then one
  \<open>None\<close> for each of the \<open>CPU\<close> workers.
\<close>

definition start_workers :: "nat \<Rightarrow> textfile list \<Rightarrow> workers" where
  "start_workers cpu files =
     \<lparr>queue = map Some files @ replicate cpu None, output_queue = [], procs = replicate cpu Waiting\<rparr>"

definition all_exited :: "workers \<Rightarrow> bool" where
  "all_exited s = list_all is_exited (procs s)"

definition work_left :: "workers \<Rightarrow> nat" where
  "work_left s = 2 * length (queue s) + length (filter is_holding (procs s))"

lemma filter_update_length:
  "w < length ps \<Longrightarrow>
   length (filter P (ps[w := st])) + (if P (ps ! w) then 1 else 0)
   = length (filter P ps) + (if P st then 1 else 0)"
proof (induction ps arbitrary: w)
  case Nil
  then show ?case by simp
next
  case (Cons p ps)
  show ?case
  proof (cases w)
    case 0
    then show ?thesis by simp
  next
    case (Suc v)
    with Cons.prems have "v < length ps" by simp
    from Cons.IH[OF this] show ?thesis using Suc by simp
  qed
qed

lemmas holding_update = filter_update_length [where P = is_holding]

lemma step_work_left: "step w s = Some s' \<Longrightarrow> work_left s' < work_left s"
proof -
  assume st: "step w s = Some s'"
  then have w: "w < length (procs s)"
    by (simp add: step_def split: if_splits)
  show ?thesis
  proof (cases "procs s ! w")
    case Waiting
    show ?thesis
    proof (cases "queue s")
      case Nil
      with st w Waiting show ?thesis by (simp add: step_def)
    next
      case (Cons j q)
      show ?thesis
      proof (cases j)
        case None
        with st w Waiting Cons holding_update[OF w, of Exited] show ?thesis
          by (auto simp: step_def work_left_def)
      next
        case (Some job)
        with st w Waiting Cons holding_update[OF w, of "Holding (count_letters2 job)"] show ?thesis
          by (auto simp: step_def work_left_def)
      qed
    qed
  next
    case (Holding cnt)
    with st w holding_update[OF w, of Waiting] show ?thesis
      by (auto simp: step_def work_left_def)
  next
    case Exited
    with st w show ?thesis by (simp add: step_def)
  qed
qed

text \<open>
  A run under a scheduler \<open>pick\<close>, which names the worker that acts next: the run goes on
  until every worker has left its loop (the driver's \<open>p.join()\<close> for every process); it
  never ends (\<open>None\<close>) when the worker picked is blocked.
\<close>

function run :: "(workers \<Rightarrow> nat) \<Rightarrow> workers \<Rightarrow> workers option" where
  "run pick s =
     (if all_exited s then Some s
      else (case step (pick s) s of
              None \<Rightarrow> None
            | Some s' \<Rightarrow> run pick s'))"
  by pat_completeness auto
termination
  by (relation "measure (\<lambda>(pick, s). work_left s)") (auto simp: step_work_left)

declare run.simps [simp del]

text \<open>
  \<open>[output.get() for p in processes]\<close>: one blocking \<open>get\<close> for each process; with fewer
  items in the queue than processes the comprehension never returns (\<open>None\<close>).
\<close>

definition get_n :: "nat \<Rightarrow> 'a list \<Rightarrow> 'a list option" where
  "get_n n q = (if n \<le> length q then Some (take n q) else None)"

text \<open>
  The queue-based driver: fill the queue, start \<open>CPU\<close> workers, join them, then
  \<open>reduce(op.add, [output.get() for p in processes])\<close>.
\<close>

definition queue_driver :: "nat \<Rightarrow> textfile list \<Rightarrow> (workers \<Rightarrow> nat) \<Rightarrow> (error + counter) option" where
  "queue_driver cpu files pick =
     (case run pick (start_workers cpu files) of
        None \<Rightarrow> None
      | Some s \<Rightarrow> (case get_n cpu (output_queue s) of
                    None \<Rightarrow> None
                  | Some results \<Rightarrow> Some (reduce_add results)))"

text \<open>The scheduler that always lets the first worker still in its loop act.\<close>

definition first_alive :: "workers \<Rightarrow> nat" where
  "first_alive s = length (takeWhile is_exited (procs s))"

text \<open>
  A scheduler is admissible when, as long as some worker is still in its loop, the worker
  it names is one of them.
\<close>

definition picks_running :: "(workers \<Rightarrow> nat) \<Rightarrow> bool" where
  "picks_running pick =
     (\<forall>s. \<not> all_exited s \<longrightarrow> pick s < length (procs s) \<and> \<not> is_exited (procs s ! pick s))"

definition running :: "status list \<Rightarrow> nat" where
  "running ps = length (filter (\<lambda>p. \<not> is_exited p) ps)"

text \<open>
  The invariant of the job queue: the files still to be counted, then exactly one \<open>None\<close>
  for every worker that is still in its loop.
\<close>

definition sentinels_ok :: "workers \<Rightarrow> bool" where
  "sentinels_ok s = (\<exists>jobs. queue s = map Some jobs @ replicate (running (procs s)) None)"

text \<open>
  The sequential solution it is compared with:
  \<open>reduce(op.add, [count_letters2(join(path, filename)) for filename in onlyfiles])\<close>.
\<close>

definition count_sequential :: "textfile list \<Rightarrow> error + counter" where
  "count_sequential files = reduce_add (map count_letters2 files)"

text \<open>
  The pool version of \<open>count_in_dir\<close> (unnamed notebook). \<open>counters.count_chars_in_book\<close>
  is the variant with the alphabet string, which holds the 33 letters 1072 to 1103 and
  1105. \<open>Pool.map\<close> returns its results in the order of its input. The merge is commented
  out: the function returns \<open>chars_in_file\<close>, the list the last \<open>pool.map\<close> returned, and
  that name is unbound when the directory is empty.
\<close>

definition alphabet :: "uchar set" where
  "alphabet = {1072 ..< 1104} \<union> {1105}"

definition counters_count_char :: "uchar \<Rightarrow> counter \<Rightarrow> counter" where
  "counters_count_char char chars =
     (if char \<in> alphabet then
        (case chars char of
           Some n \<Rightarrow> chars(char \<mapsto> n + 1)
         | None \<Rightarrow> chars(char \<mapsto> 0))
      else chars)"

definition counters_count_chars_in_book :: "textfile \<Rightarrow> counter" where
  "counters_count_chars_in_book txt =
     fold (\<lambda>line chars. fold counters_count_char (lower line) chars) txt Map.empty"

definition count_in_dir_pool :: "textfile list \<Rightarrow> error + counter list" where
  "count_in_dir_pool files =
     (case fold (\<lambda>file chars_in_file. Some (map counters_count_chars_in_book files)) files None of
        None \<Rightarrow> Inl UnboundLocalError
      | Some chars_in_file \<Rightarrow> Inr chars_in_file)"

section \<open>The process pool\<close>

text \<open>
  \<open>cube(x)\<close> on Python's unbounded integers.
\<close>

definition cube :: "int \<Rightarrow> int" where
  "cube x = x ^ 3"

text \<open>
  A pool numbers the tasks it is given; its workers finish them in an order of their own
  (\<open>finished\<close>, the task numbers in the order of completion), and the result of a task is
  stored under its number. \<open>AsyncResult.get()\<close> reads the result of one task and blocks
  while there is none.
\<close>

type_synonym 'b cache = "nat \<rightharpoonup> 'b"

definition pool_run :: "('a \<Rightarrow> 'b) \<Rightarrow> 'a list \<Rightarrow> nat list \<Rightarrow> 'b cache" where
  "pool_run f tasks finished =
     fold (\<lambda>i cache. if i < length tasks then cache(i \<mapsto> f (tasks ! i)) else cache)
       finished Map.empty"

fun collect :: "'b cache \<Rightarrow> nat list \<Rightarrow> 'b list option" where
  "collect cache [] = Some []"
| "collect cache (j # js) =
     (case cache j of
        None \<Rightarrow> None
      | Some v \<Rightarrow> (case collect cache js of None \<Rightarrow> None | Some vs \<Rightarrow> Some (v # vs)))"

text \<open>
  \<open>pool.apply_async(f, args=(x,))\<close> adds a task and returns the handle of its result;
  \<open>[pool.apply_async(f, args=(x,)) for x in xs]\<close> does so for every element, in order.
\<close>

definition apply_async :: "'a list \<Rightarrow> 'a \<Rightarrow> 'a list \<times> nat" where
  "apply_async tasks x = (tasks @ [x], length tasks)"

fun apply_async_each :: "'a list \<Rightarrow> 'a list \<Rightarrow> 'a list \<times> nat list" where
  "apply_async_each tasks [] = (tasks, [])"
| "apply_async_each tasks (x # xs) =
     (case apply_async tasks x of
        (tasks', p) \<Rightarrow> (case apply_async_each tasks' xs of (tasks'', ps) \<Rightarrow> (tasks'', p # ps)))"

text \<open>
  The two cells: \<open>results = pool.map(cube, xs)\<close>, which hands every element to the pool
  and returns the results by task number, and
  \<open>results = [pool.apply_async(cube, args=(x,)) for x in xs]\<close> followed by
  \<open>output = [p.get() for p in results]\<close>.
\<close>

definition Pool_map :: "('a \<Rightarrow> 'b) \<Rightarrow> 'a list \<Rightarrow> nat list \<Rightarrow> 'b list option" where
  "Pool_map f xs finished = collect (pool_run f xs finished) [0..<length xs]"

definition cube_map :: "int list \<Rightarrow> nat list \<Rightarrow> int list option" where
  "cube_map xs finished = Pool_map cube xs finished"

definition cube_async :: "int list \<Rightarrow> nat list \<Rightarrow> int list option" where
  "cube_async xs finished =
     (case apply_async_each [] xs of
        (tasks, results) \<Rightarrow> collect (pool_run cube tasks finished) results)"

text \<open>
  The chunked cell as it is written: \<open>pool = mp.Pool(cpu)\<close>, which raises \<open>ValueError\<close>
  for a pool of no process; then \<open>pool.apply_async(counter.counting, args=(slice,))\<close> for
  every slice, the handles being dropped; then \<open>print(reduce(op.add, results))\<close>. The
  line that would collect the handles is a comment, and the cell binds no \<open>results\<close>:
  the name is looked up in the notebook, and \<open>results\<close> below is what it is bound to
  there when the cell runs, \<open>None\<close> when it is bound to nothing, which raises
  \<open>NameError\<close>. The outcome of a cell that runs through is the list of the arguments of
  the tasks handed to the pool, and the table printed.
\<close>

definition chunked_cell :: "nat \<Rightarrow> ustring \<Rightarrow> counter list option \<Rightarrow> error + (ustring list \<times> counter)" where
  "chunked_cell cpu file results =
     (if cpu = 0 then Inl ValueError
      else (case apply_async_each [] (chunks cpu file) of
              (tasks, handles) \<Rightarrow>
                (case results of
                   None \<Rightarrow> Inl NameError
                 | Some tallies \<Rightarrow>
                     (case reduce_add tallies of
                        Inl e \<Rightarrow> Inl e
                      | Inr printed \<Rightarrow> Inr (tasks, printed)))))"

section \<open>Random strings with a position tag\<close>

text \<open>
  \<open>rand_string(length, pos, output)\<close>: \<open>length\<close> characters drawn with \<open>random.choice\<close>
  from \<open>string.ascii_lowercase + string.ascii_uppercase + string.digits\<close>, put on the
  output queue together with \<open>pos\<close>. The random source of a process is the sequence
  \<open>rnd\<close> of the numbers it draws; \<open>random.choice(seq)\<close> turns a draw into an index of
  \<open>seq\<close>.
\<close>

definition ascii_alnum :: ustring where
  "ascii_alnum = [97..<123] @ [65..<91] @ [48..<58]"

definition rand_str :: "nat \<Rightarrow> (nat \<Rightarrow> nat) \<Rightarrow> ustring" where
  "rand_str len rnd = map (\<lambda>i. ascii_alnum ! (rnd i mod length ascii_alnum)) [0..<len]"

definition rand_string :: "nat \<Rightarrow> nat \<Rightarrow> (nat \<Rightarrow> nat) \<Rightarrow> (nat \<times> ustring) list \<Rightarrow> (nat \<times> ustring) list" where
  "rand_string len pos rnd out = out @ [(pos, rand_str len rnd)]"

text \<open>
  The driver starts one process for every \<open>x\<close> in \<open>range(N)\<close> with arguments
  \<open>(5, x, output)\<close> and joins them; \<open>arrival\<close> is the order in which the processes reach
  their \<open>output.put\<close>. Then \<open>results = [output.get() for p in processes]\<close>,
  \<open>results.sort()\<close> (tuples compare by position first, then by string) and
  \<open>results = [r[1] for r in results]\<close>.
\<close>

definition tagged_results :: "nat \<Rightarrow> (nat \<Rightarrow> nat \<Rightarrow> nat) \<Rightarrow> nat list \<Rightarrow> (nat \<times> ustring) list option" where
  "tagged_results n rnd arrival =
     get_n n (fold (\<lambda>x out. rand_string 5 x (rnd x) out) arrival [])"

definition sorted_strings :: "nat \<Rightarrow> (nat \<Rightarrow> nat \<Rightarrow> nat) \<Rightarrow> nat list \<Rightarrow> ustring list option" where
  "sorted_strings n rnd arrival =
     (case tagged_results n rnd arrival of
        None \<Rightarrow> None
      | Some results \<Rightarrow> Some (map snd (sort results)))"

section \<open>Bags of records: groupby and foldby\<close>

text \<open>
  A record of the accounts data: \<open>id\<close>, \<open>name\<close> and the list of transactions, each a
  \<open>transaction-id\<close> and an \<open>amount\<close>. A bag is the list of its partitions; \<open>compute()\<close>
  concatenates them.
\<close>

record transaction =
  transaction_id :: int
  amount :: int

record account =
  id' :: int
  name :: string
  transactions :: "transaction list"

type_synonym 'a bag = "'a list list"

definition compute :: "'a bag \<Rightarrow> 'a list" where
  "compute b = concat b"

text \<open>
  \<open>groupby(grouper)\<close> shuffles the bag so that all items with the same key are in one
  pair \<open>(key, items)\<close>; \<open>starmap(f)\<close> applies \<open>f\<close> to the components of every pair.
\<close>

definition groupby :: "('a \<Rightarrow> 'k) \<Rightarrow> 'a bag \<Rightarrow> ('k \<times> 'a list) bag" where
  "groupby grouper b =
     [map (\<lambda>k. (k, filter (\<lambda>item. grouper item = k) (concat b)))
        (remdups (map grouper (concat b)))]"

definition starmap :: "('k \<Rightarrow> 'v \<Rightarrow> 'c) \<Rightarrow> ('k \<times> 'v) bag \<Rightarrow> 'c bag" where
  "starmap f b = map (map (\<lambda>(k, v). f k v)) b"

text \<open>
  \<open>reduceby(key, binop, seq, init)\<close> walks through \<open>seq\<close> with a dictionary of
  accumulators, one per key, each starting from \<open>init\<close>; the dictionary is the list of its
  items in insertion order. \<open>foldby\<close> reduces every partition with \<open>binop\<close> and
  \<open>initial\<close>, then reduces the items of all the per-partition dictionaries by key with
  \<open>combine\<close> applied to the accumulator and the value of the item, from
  \<open>combine_initial\<close>.
\<close>

definition reduceby_step :: "('a \<Rightarrow> 'k) \<Rightarrow> ('b \<Rightarrow> 'a \<Rightarrow> 'b) \<Rightarrow> 'b \<Rightarrow> 'a \<Rightarrow> ('k \<times> 'b) list \<Rightarrow> ('k \<times> 'b) list" where
  "reduceby_step key binop init item d =
     AList.update (key item)
       (binop (case map_of d (key item) of None \<Rightarrow> init | Some acc \<Rightarrow> acc) item) d"

definition reduceby :: "('a \<Rightarrow> 'k) \<Rightarrow> ('b \<Rightarrow> 'a \<Rightarrow> 'b) \<Rightarrow> 'a list \<Rightarrow> 'b \<Rightarrow> ('k \<times> 'b) list" where
  "reduceby key binop seq init = fold (reduceby_step key binop init) seq []"

definition foldby :: "('a \<Rightarrow> 'k) \<Rightarrow> ('b \<Rightarrow> 'a \<Rightarrow> 'b) \<Rightarrow> 'b \<Rightarrow> ('c \<Rightarrow> 'b \<Rightarrow> 'c) \<Rightarrow> 'c \<Rightarrow> 'a bag \<Rightarrow> ('k \<times> 'c) bag" where
  "foldby key binop initial combine combine_initial b =
     [reduceby fst (\<lambda>acc x. combine acc (snd x))
        (concat (map (\<lambda>part. reduceby key binop part initial) b)) combine_initial]"

text \<open>
  The two cells that count the people with the same name:
  \<open>js.groupby(lambda item: item['name']).starmap(lambda k, v: (k, len(v))).compute()\<close> and
  \<open>js.foldby(key='name', binop=incr, initial=0, combine=add, combine_initial=0).compute()\<close>
  with \<open>incr(tot, _) = tot + 1\<close>.
\<close>

definition incr :: "int \<Rightarrow> 'a \<Rightarrow> int" where
  "incr tot _ = tot + 1"

definition add :: "int \<Rightarrow> int \<Rightarrow> int" where
  "add a b = a + b"

definition name_counts_groupby :: "account bag \<Rightarrow> (string \<times> int) list" where
  "name_counts_groupby js =
     compute (starmap (\<lambda>k v. (k, int (length v))) (groupby (\<lambda>item. name item) js))"

definition name_counts_foldby :: "account bag \<Rightarrow> (string \<times> int) list" where
  "name_counts_foldby js = compute (foldby name incr 0 add 0 js)"

text \<open>The number of records of a list that carry a given name.\<close>

definition occurrences :: "string \<Rightarrow> account list \<Rightarrow> int" where
  "occurrences k xs = int (length (filter (\<lambda>item. name item = k) xs))"

section \<open>Algebra of tally addition\<close>

lemma Counter_add_pos: "Counter_add a b k = keep_positive (counter_get a k + counter_get b k)"
  by (simp add: Counter_add_def keep_positive_def counter_get_def split: option.splits)

lemma counter_get_pos: "counter_get (\<lambda>k. keep_positive (f k)) k = (if f k > 0 then f k else 0)"
  by (simp add: counter_get_def keep_positive_def)

lemma nonneg_get: "nonneg a \<Longrightarrow> 0 \<le> counter_get a k"
  by (auto simp: nonneg_def counter_get_def split: option.splits)

lemma counter_get_add:
  "nonneg a \<Longrightarrow> nonneg b \<Longrightarrow> counter_get (Counter_add a b) k = counter_get a k + counter_get b k"
  using nonneg_get[of a k] nonneg_get[of b k]
  by (simp add: Counter_add_pos[abs_def] counter_get_pos)

lemma nonneg_add: "nonneg (Counter_add a b)"
  by (auto simp: nonneg_def Counter_add_pos keep_positive_def split: if_splits)

lemma nonneg_empty: "nonneg Map.empty"
  by (simp add: nonneg_def)

lemma Counter_add_commute: "Counter_add a b = Counter_add b a"
  by (rule ext) (simp add: Counter_add_pos add.commute)

lemma Counter_add_assoc:
  assumes "nonneg a" "nonneg b" "nonneg c"
  shows "Counter_add (Counter_add a b) c = Counter_add a (Counter_add b c)"
proof (rule ext)
  fix k
  show "Counter_add (Counter_add a b) c k = Counter_add a (Counter_add b c) k"
    by (simp add: Counter_add_pos counter_get_add assms add.assoc)
qed

definition total_at :: "counter list \<Rightarrow> uchar \<Rightarrow> int" where
  "total_at ts k = sum_list (map (\<lambda>t. counter_get t k) ts)"

lemma total_at_mset: "mset xs = mset ys \<Longrightarrow> total_at xs k = total_at ys k"
proof -
  assume "mset xs = mset ys"
  then have "mset (map (\<lambda>t. counter_get t k) xs) = mset (map (\<lambda>t. counter_get t k) ys)"
    by (metis mset_map)
  then show ?thesis
    unfolding total_at_def by (metis sum_mset_sum_list)
qed

lemma foldl_Counter_add_get:
  "nonneg a \<Longrightarrow> \<forall>t\<in>set ts. nonneg t \<Longrightarrow>
   counter_get (foldl Counter_add a ts) k = counter_get a k + total_at ts k"
proof (induction ts arbitrary: a)
  case Nil
  then show ?case by (simp add: total_at_def)
next
  case (Cons t ts)
  have "counter_get (foldl Counter_add (Counter_add a t) ts) k
        = counter_get (Counter_add a t) k + total_at ts k"
    using Cons.prems by (intro Cons.IH) (simp_all add: nonneg_add)
  then show ?case
    using Cons.prems by (simp add: counter_get_add total_at_def)
qed

lemma foldl_Counter_add_pos:
  "nonneg a \<Longrightarrow> \<forall>t\<in>set ts. nonneg t \<Longrightarrow> ts \<noteq> [] \<Longrightarrow>
   foldl Counter_add a ts k = keep_positive (counter_get a k + total_at ts k)"
proof (induction ts arbitrary: a rule: rev_induct)
  case Nil
  then show ?case by simp
next
  case (snoc t ts)
  have "foldl Counter_add a (ts @ [t]) k
        = keep_positive (counter_get (foldl Counter_add a ts) k + counter_get t k)"
    by (simp add: Counter_add_pos)
  also have "counter_get (foldl Counter_add a ts) k = counter_get a k + total_at ts k"
    using snoc.prems by (intro foldl_Counter_add_get) simp_all
  finally show ?case by (simp add: total_at_def add.assoc)
qed

lemma merge_total_perm:
  assumes "\<forall>t\<in>set xs. nonneg t" "mset xs = mset ys"
  shows "merge_total xs = merge_total ys"
proof (cases "xs = []")
  case True
  with assms show ?thesis by simp
next
  case False
  with assms have ys: "ys \<noteq> []" "\<forall>t\<in>set ys. nonneg t"
    by (auto dest: mset_eq_setD)
  show ?thesis
  proof (rule ext)
    fix k
    show "merge_total xs k = merge_total ys k"
      unfolding merge_total_def
      using assms False ys
      by (simp add: foldl_Counter_add_pos nonneg_empty total_at_mset[OF assms(2)])
  qed
qed

lemma reduce_add_perm:
  assumes "\<forall>t\<in>set xs. nonneg t" "mset xs = mset ys"
  shows "reduce_add xs = reduce_add ys"
proof (cases xs)
  case Nil
  with assms show ?thesis by simp
next
  case (Cons x xs')
  then obtain y ys' where ys: "ys = y # ys'"
    using assms(2) by (cases ys) auto
  have nn: "\<forall>t\<in>set ys. nonneg t"
    using assms by (auto dest: mset_eq_setD)
  show ?thesis
  proof (cases "xs' = []")
    case True
    then have "ys' = []" "y = x"
      using assms(2) Cons ys
      by (auto simp: single_is_union dest: arg_cong[where f=size])
    with True Cons ys show ?thesis by simp
  next
    case False
    have len: "length xs = length ys"
      using assms(2) by (metis size_mset)
    then have ne: "ys' \<noteq> []"
      using False Cons ys by auto
    have "foldl Counter_add x xs' k = foldl Counter_add y ys' k" for k
    proof -
      have "counter_get x k + total_at xs' k = total_at xs k"
        by (simp add: Cons total_at_def)
      moreover have "counter_get y k + total_at ys' k = total_at ys k"
        by (simp add: ys total_at_def)
      ultimately show ?thesis
        using assms(1) nn False ne Cons ys total_at_mset[OF assms(2), of k]
        by (simp add: foldl_Counter_add_pos)
    qed
    then show ?thesis
      by (simp add: Cons ys fun_eq_iff)
  qed
qed

text \<open>
  C9. Tally addition, as used by the sequential merge loop (\<open>total = total + chars_in_file\<close>)
  and by \<open>reduce(op.add, ...)\<close> over the retrieved partial tallies, is commutative and, on
  tables with non-negative counts, associative; hence for every collection of partial
  tallies with non-negative counts the merged result is the same for every retrieval order.
\<close>

theorem merge_order_independent:
  assumes "nonneg a" "nonneg b" "nonneg c"
    and "\<forall>t\<in>set xs. nonneg t" and "mset xs = mset ys"
  shows "Counter_add a b = Counter_add b a
       \<and> Counter_add (Counter_add a b) c = Counter_add a (Counter_add b c)
       \<and> merge_total xs = merge_total ys
       \<and> reduce_add xs = reduce_add ys"
proof (intro conjI)
  show "Counter_add a b = Counter_add b a"
    by (rule Counter_add_commute)
  show "Counter_add (Counter_add a b) c = Counter_add a (Counter_add b c)"
    using assms(1-3) by (rule Counter_add_assoc)
  show "merge_total xs = merge_total ys"
    using assms(4,5) by (rule merge_total_perm)
  show "reduce_add xs = reduce_add ys"
    using assms(4,5) by (rule reduce_add_perm)
qed


theorem merge_order_independent_witness:
  "Counter_add [1072 \<mapsto> 1] [1073 \<mapsto> 2] = Counter_add [1073 \<mapsto> 2] [1072 \<mapsto> 1]
   \<and> Counter_add (Counter_add [1072 \<mapsto> 1] [1073 \<mapsto> 2]) [1072 \<mapsto> 3]
       = Counter_add [1072 \<mapsto> 1] (Counter_add [1073 \<mapsto> 2] [1072 \<mapsto> 3])
   \<and> merge_total [[1072 \<mapsto> 1], [1073 \<mapsto> 2]] = merge_total [[1073 \<mapsto> 2], [1072 \<mapsto> 1]]
   \<and> reduce_add [[1072 \<mapsto> 1], [1073 \<mapsto> 2]] = reduce_add [[1073 \<mapsto> 2], [1072 \<mapsto> 1]]"
proof -
  have a: "nonneg [1072 \<mapsto> 1]" and b: "nonneg [1073 \<mapsto> 2]" and c: "nonneg [1072 \<mapsto> 3]"
    by (simp_all add: nonneg_def)
  have t: "\<forall>t\<in>set [[1072 \<mapsto> 1], [1073 \<mapsto> 2]]. nonneg t"
    using a b by simp
  have m: "mset [[1072 \<mapsto> 1::int], [1073 \<mapsto> 2]] = mset [[1073 \<mapsto> 2], [(1072::nat) \<mapsto> 1]]"
    by simp
  show ?thesis
    using merge_order_independent [OF a b c t m] .
qed

section \<open>What the counting functions return\<close>

lemma fold_count_char_append:
  "fold (\<lambda>line chars. fold count_char (lower line) chars) txt m
   = fold count_char (lower (concat txt)) m"
  by (induction "txt" arbitrary: m) (simp_all add: lower_def)

lemma fold_count_char_other:
  "\<not> (re_match k \<and> k \<in> set s) \<Longrightarrow> fold count_char s m k = m k"
  by (induction s arbitrary: m) (auto simp: count_char_def split: option.splits)

lemma fold_count_char_seen:
  "re_match k \<Longrightarrow> m k = Some n \<Longrightarrow> fold count_char s m k = Some (n + int (count_list s k))"
  by (induction s arbitrary: m n) (auto simp: count_char_def split: option.splits)

lemma fold_count_char_new:
  "re_match k \<Longrightarrow> m k = None \<Longrightarrow> k \<in> set s \<Longrightarrow>
   fold count_char s m k = Some (int (count_list s k) - 1)"
proof (induction s arbitrary: m)
  case Nil
  then show ?case by simp
next
  case (Cons c s)
  show ?case
  proof (cases "c = k")
    case True
    then have "fold count_char (c # s) m k = fold count_char s (m(k \<mapsto> 0)) k"
      using Cons.prems by (simp add: count_char_def)
    also have "\<dots> = Some (0 + int (count_list s k))"
      using Cons.prems(1) by (intro fold_count_char_seen) simp_all
    finally show ?thesis using True by simp
  next
    case False
    then have "count_char c m k = None"
      using Cons.prems by (auto simp: count_char_def split: option.splits)
    with Cons False show ?thesis by simp
  qed
qed

lemma count_chars_in_book_eq:
  "count_chars_in_book txt k =
     (if re_match k \<and> k \<in> set (lower (concat txt))
      then Some (int (count_list (lower (concat txt)) k) - 1) else None)"
  unfolding count_chars_in_book_def fold_count_char_append
  by (simp add: fold_count_char_other fold_count_char_new)

lemma Counter_update_eq:
  "Counter_update c xs k =
     (if k \<in> set xs then Some (counter_get c k + int (count_list xs k)) else c k)"
  by (induction xs arbitrary: c) (auto simp: counter_get_def)

lemma Counter_eq:
  "Counter xs k = (if k \<in> set xs then Some (int (count_list xs k)) else None)"
  by (simp add: Counter_def Counter_update_eq counter_get_def)

text \<open>
  The sequential \<open>count_in_dir\<close> is the merge of the per-file tables, and it does not
  depend on the order in which the directory lists its files.
\<close>

lemma count_in_dir_merge: "count_in_dir files = merge_total (map count_chars_in_book files)"
  by (simp add: count_in_dir_def merge_total_def foldl_map)

lemma count_list_pos: "k \<in> set xs \<Longrightarrow> 0 < count_list xs k"
  by (metis count_list_0_iff gr0I)

lemma nonneg_count_chars_in_book: "nonneg (count_chars_in_book f)"
  using count_list_pos by (fastforce simp: nonneg_def count_chars_in_book_eq split: if_splits)

lemma count_in_dir_listing_order:
  "mset files = mset files' \<Longrightarrow> count_in_dir files = count_in_dir files'"
  unfolding count_in_dir_merge
  by (rule merge_total_perm) (auto simp: nonneg_count_chars_in_book)

text \<open>
  C2. Every Cyrillic character that occurs in the lowercased text should be mapped by
  \<open>count_chars_in_book\<close> to exactly its number of occurrences. On a file whose only line is
  the single letter with code point 1072, which occurs once, the table maps it to 0: the
  first occurrence of every character is stored as 0, so each count is one short.
\<close>

theorem count_chars_in_book_one_short:
  "count_chars_in_book [[1072]] 1072 = Some 0
   \<and> count_list (lower (concat [[1072]])) 1072 = 1"
  by (simp add: count_chars_in_book_def count_char_def re_match_def lower_def lower_char_def)

text \<open>
  C4. Every Russian letter, the letter with code point 1105 included, that occurs in the
  text should be a key of the table. On a file whose only line is that one letter,
  \<open>count_letters2\<close> and \<open>count_chars_in_book\<close> return the empty table, and so does
  \<open>counting\<close>; on a file whose only line is the last letter of the alphabet (1103), the
  cp1251 \<open>count_letters\<close> returns the empty table as well, its range stopping one short.
\<close>

theorem letters_missing_from_table:
  "count_letters2 [[1105]] = Map.empty
   \<and> counting [1105] = Map.empty
   \<and> count_chars_in_book [[1105]] = Map.empty
   \<and> count_letters [[1103]] = Inr Map.empty"
  by (simp add: count_letters2_def counting_def count_chars_in_book_def count_letters_def
      genexpr_line_def count_char_def re_match_def rus_symb_def rus_symb_cp1251_def
      Counter_def lower_def lower_char_def)

text \<open>
  C5 as stated: the cp1251 \<open>count_letters\<close> raises the undefined-name error on every input
  file. It does not on the empty file, nor on a file without any letter of its alphabet:
  the generator then yields nothing and the empty table is returned.
\<close>

theorem count_letters_always_crashes_counterexample:
  "count_letters [] = Inr Map.empty \<and> count_letters [[72, 105, 10]] = Inr Map.empty"
  by (simp add: count_letters_def genexpr_line_def rus_symb_cp1251_def lower_def lower_char_def)

lemma Counter_consume_all_errors:
  "Counter_consume c (map (\<lambda>x. Inl e) xs) = (if xs = [] then Inr c else Inl e)"
  by (cases xs) simp_all

lemma concat_genexpr_line:
  "concat (map genexpr_line file)
   = map (\<lambda>c. Inl NameError) (filter (\<lambda>c. c \<in> rus_symb_cp1251) (lower (concat file)))"
  by (induction "file") (simp_all add: genexpr_line_def lower_def)

text \<open>
  C5, amended. For every input file whose lowercased text contains at least one character
  of the function's alphabet (code points 1072 to 1102), \<open>count_letters\<close> raises the
  undefined-name error and returns no table; on every other file it returns the empty table.
\<close>

theorem count_letters_crashes_on_letters:
  "count_letters file =
     (if \<exists>c\<in>set (lower (concat file)). c \<in> rus_symb_cp1251
      then Inl NameError else Inr Map.empty)"
  unfolding count_letters_def concat_genexpr_line Counter_consume_all_errors
  by (auto simp: filter_empty_conv)

theorem count_letters_crashes_on_letters_witness:
  "(\<exists>c\<in>set (lower (concat [[1055, 1088, 1080]])). c \<in> rus_symb_cp1251)
   \<and> count_letters [[1055, 1088, 1080]] = Inl NameError"
proof -
  have h: "\<exists>c\<in>set (lower (concat [[1055, 1088, 1080]])). c \<in> rus_symb_cp1251"
    by (simp add: lower_def lower_char_def rus_symb_cp1251_def)
  show ?thesis
    using h count_letters_crashes_on_letters [of "[[1055, 1088, 1080]]"] by simp
qed


section \<open>The queue workers\<close>

lemma running_update:
  "w < length ps \<Longrightarrow>
   running (ps[w := st]) + (if is_exited (ps ! w) then 0 else 1)
   = running ps + (if is_exited st then 0 else 1)"
  using filter_update_length [of w ps "\<lambda>p. \<not> is_exited p" st]
  by (auto simp: running_def split: if_splits)

lemma sentinels_ok_init: "sentinels_ok (start_workers cpu files)"
proof -
  have "running (replicate cpu Waiting) = cpu"
    by (induction cpu) (simp_all add: running_def)
  then show ?thesis
    by (auto simp: sentinels_ok_def start_workers_def)
qed

lemma sentinels_ok_step:
  assumes "sentinels_ok s" and "step w s = Some s'"
  shows "sentinels_ok s'"
proof -
  from assms(2) have w: "w < length (procs s)"
    by (simp add: step_def split: if_splits)
  from assms(1) obtain jobs where q: "queue s = map Some jobs @ replicate (running (procs s)) None"
    by (auto simp: sentinels_ok_def)
  show ?thesis
  proof (cases "procs s ! w")
    case Waiting
    show ?thesis
    proof (cases jobs)
      case Nil
      show ?thesis
      proof (cases "running (procs s)")
        case 0
        with q Nil assms(2) w Waiting show ?thesis by (simp add: step_def)
      next
        case (Suc k)
        with q Nil assms(2) w Waiting running_update[OF w, of Exited]
        have "queue s' = replicate k None" "running (procs s') = k"
          by (auto simp: step_def)
        then show ?thesis
          by (simp add: sentinels_ok_def)
      qed
    next
      case (Cons job jobs')
      with q assms(2) w Waiting running_update[OF w, of "Holding (count_letters2 job)"]
      have "queue s' = map Some jobs' @ replicate (running (procs s)) None"
        "running (procs s') = running (procs s)"
        by (auto simp: step_def)
      then show ?thesis
        by (auto simp: sentinels_ok_def)
    qed
  next
    case (Holding cnt)
    with q assms(2) w running_update[OF w, of Waiting]
    have "queue s' = queue s" "running (procs s') = running (procs s)"
      by (auto simp: step_def)
    with q show ?thesis
      by (auto simp: sentinels_ok_def)
  next
    case Exited
    with assms(2) w show ?thesis by (simp add: step_def)
  qed
qed

lemma running_pos: "w < length ps \<Longrightarrow> \<not> is_exited (ps ! w) \<Longrightarrow> 0 < running ps"
  unfolding running_def by (metis (mono_tags, lifting) filter_empty_conv length_greater_0_conv nth_mem)

lemma never_blocked:
  assumes "sentinels_ok s" and "w < length (procs s)" and "\<not> is_exited (procs s ! w)"
  shows "\<exists>s'. step w s = Some s'"
proof -
  from assms(1) obtain jobs where q: "queue s = map Some jobs @ replicate (running (procs s)) None"
    by (auto simp: sentinels_ok_def)
  from running_pos[OF assms(2,3)] q have "queue s \<noteq> []"
    by auto
  with assms(2,3) show ?thesis
    by (cases "procs s ! w") (auto simp: step_def split: list.splits option.splits)
qed

lemma run_terminates:
  "sentinels_ok s \<Longrightarrow> picks_running pick \<Longrightarrow> \<exists>s'. run pick s = Some s' \<and> all_exited s'"
proof (induction pick s rule: run.induct)
  case (1 pick s)
  show ?case
  proof (cases "all_exited s")
    case True
    then show ?thesis by (simp add: run.simps)
  next
    case False
    with "1.prems"(2) have p: "pick s < length (procs s)" "\<not> is_exited (procs s ! pick s)"
      by (auto simp: picks_running_def)
    from never_blocked[OF "1.prems"(1) p] obtain s1 where s1: "step (pick s) s = Some s1"
      by blast
    from sentinels_ok_step[OF "1.prems"(1) s1] have "sentinels_ok s1" .
    from "1.IH"[OF False s1 this "1.prems"(2)] obtain s' where "run pick s1 = Some s'" "all_exited s'"
      by blast
    with False s1 show ?thesis
      by (simp add: run.simps)
  qed
qed

lemma picks_running_first_alive: "picks_running first_alive"
proof -
  have "length (takeWhile is_exited ps) < length ps \<and> \<not> is_exited (ps ! length (takeWhile is_exited ps))"
    if "\<not> list_all is_exited ps" for ps
  proof -
    from that have "takeWhile is_exited ps \<noteq> ps"
      by (simp add: takeWhile_eq_all_conv list_all_iff)
    then have "length (takeWhile is_exited ps) < length ps"
      by (metis length_takeWhile_le le_neq_implies_less takeWhile_eq_take take_all_iff order_refl)
    then show ?thesis
      by (simp add: nth_length_takeWhile)
  qed
  then show ?thesis
    by (simp add: picks_running_def all_exited_def first_alive_def)
qed

text \<open>
  C10. Every queue-consuming worker terminates. The queue is loaded with the finite list
  of files followed by one \<open>None\<close> for each worker, and a worker leaves its loop as soon as
  it reads \<open>None\<close>: under every scheduler that lets workers still in their loop act, no
  worker is ever blocked and the run reaches, after finitely many actions, a state in which
  every one of the workers has left its \<open>while True\<close> loop.
\<close>

theorem queue_workers_terminate:
  assumes "picks_running pick"
  shows "\<exists>s'. run pick (start_workers cpu files) = Some s' \<and> all_exited s' \<and> length (procs s') = cpu"
proof -
  have len: "run pick s = Some s' \<Longrightarrow> length (procs s') = length (procs s)" for s s'
  proof (induction pick s rule: run.induct)
    case (1 pick s)
    show ?case
    proof (cases "all_exited s")
      case True
      with "1.prems" show ?thesis by (simp add: run.simps)
    next
      case False
      with "1.prems" obtain s1 where s1: "step (pick s) s = Some s1" "run pick s1 = Some s'"
        by (auto simp: run.simps split: option.splits)
      from s1(1) have "length (procs s1) = length (procs s)"
        by (auto simp: step_def split: if_splits status.splits list.splits option.splits)
      with "1.IH"[OF False s1] show ?thesis by simp
    qed
  qed
  from run_terminates[OF sentinels_ok_init assms, of cpu files]
  obtain s' where s': "run pick (start_workers cpu files) = Some s'" "all_exited s'"
    by blast
  from len[OF s'(1)] have "length (procs s') = cpu"
    by (simp add: start_workers_def)
  with s' show ?thesis by blast
qed

theorem queue_workers_terminate_witness:
  "picks_running first_alive
   \<and> (\<exists>s'. run first_alive (start_workers 2 [[[1072]], [[1073]], [[1074]]]) = Some s'
          \<and> all_exited s' \<and> length (procs s') = 2)"
  using picks_running_first_alive
    queue_workers_terminate [OF picks_running_first_alive, of 2 "[[[1072]], [[1073]], [[1074]]]"]
  by simp


section \<open>The drivers on concrete directories\<close>

text \<open>
  The sum of the tallies of the slices is the tally of the first \<open>(|s| div cpu) * cpu\<close>
  characters, which is the tally of the whole text when \<open>cpu\<close> divides its length.
\<close>

lemma concat_slices:
  "concat (map (\<lambda>i. slice s (b * i) (b * (i + 1))) [0..<n]) = take (b * n) s"
proof (induction n)
  case 0
  then show ?case by simp
next
  case (Suc n)
  have "slice s (b * n) (b * (n + 1)) = take b (drop (b * n) s)"
    by (simp add: slice_def)
  moreover have "take (b * Suc n) s = take (b * n) s @ take b (drop (b * n) s)"
    using take_add[of "b * n" b s] by (simp add: add.commute)
  ultimately show ?case
    using Suc by simp
qed

lemma Counter_keep_positive: "Counter xs k = keep_positive (int (count_list xs k))"
  by (simp add: Counter_eq keep_positive_def count_list_0_iff)

lemma counter_get_counting:
  "counter_get (counting s) k = int (count_list (filter (\<lambda>c. c \<in> rus_symb) s) k)"
  by (simp add: counting_def counter_get_def Counter_eq count_list_0_iff)

lemma nonneg_counting: "nonneg (counting s)"
  by (simp add: nonneg_def counting_def Counter_eq split: if_splits)

lemma total_at_counting:
  "total_at (map counting xs) k = int (count_list (filter (\<lambda>c. c \<in> rus_symb) (concat xs)) k)"
  by (induction xs) (simp_all add: total_at_def counter_get_counting)

lemma reduce_add_counting:
  assumes "xs \<noteq> []"
  shows "reduce_add (map counting xs) = Inr (counting (concat xs))"
proof (cases xs)
  case Nil
  with assms show ?thesis by simp
next
  case (Cons x ys)
  show ?thesis
  proof (cases "ys = []")
    case True
    with Cons show ?thesis by simp
  next
    case False
    have "foldl Counter_add (counting x) (map counting ys) k = counting (concat xs) k" for k
    proof -
      have "foldl Counter_add (counting x) (map counting ys) k
            = keep_positive (counter_get (counting x) k + total_at (map counting ys) k)"
        using False by (intro foldl_Counter_add_pos) (auto simp: nonneg_counting)
      also have "\<dots> = keep_positive (int (count_list (filter (\<lambda>c. c \<in> rus_symb) (concat xs)) k))"
        by (simp only: counter_get_counting total_at_counting) (simp add: Cons)
      also have "\<dots> = counting (concat xs) k"
        by (simp add: counting_def Counter_keep_positive)
      finally show ?thesis .
    qed
    then show ?thesis
      by (simp add: Cons fun_eq_iff)
  qed
qed

lemma chunks_sum_eq:
  assumes "0 < cpu"
  shows "reduce_add (map counting (chunks cpu s))
         = Inr (counting (take (length s div cpu * cpu) s))"
proof -
  from assms have "chunks cpu s \<noteq> []"
    by (simp add: chunks_def Let_def)
  moreover have "concat (chunks cpu s) = take (length s div cpu * cpu) s"
    by (simp only: chunks_def Let_def concat_slices)
  ultimately show ?thesis
    by (simp add: reduce_add_counting)
qed

lemma chunks_sum_exact:
  assumes "0 < cpu" and "cpu dvd length s"
  shows "reduce_add (map counting (chunks cpu s)) = Inr (counting s)"
  using assms by (simp add: chunks_sum_eq)

lemma chunks_example: "chunks 2 [1072, 1073, 1074] = [[1072], [1073]]"
  by code_simp

text \<open>
  C3. Splitting a text into \<open>p\<close> contiguous ranges of \<open>b = |s| div p\<close> characters should
  lose no data: the sum of the tallies of the slices should be the tally of the whole
  text. For the three-letter text 1072, 1073, 1074 and two workers, \<open>b = 1\<close>, the slices
  are \<open>s[0:1]\<close> and \<open>s[1:2]\<close>, and the last letter is in neither of them: the sum of the
  tallies of the slices has two keys, the tally of the whole text three. The cell as it
  is written hands these two slices to the pool and never reads their tallies: with no
  \<open>results\<close> bound in the notebook it raises \<open>NameError\<close>, and with one it prints the sum
  of whatever that name holds.
\<close>

theorem chunks_drop_tail:
  "chunks 2 [1072, 1073, 1074] = [[1072], [1073]]
   \<and> reduce_add (map counting (chunks 2 [1072, 1073, 1074])) = Inr [1072 \<mapsto> 1, 1073 \<mapsto> 1]
   \<and> counting [1072, 1073, 1074] = [1072 \<mapsto> 1, 1073 \<mapsto> 1, 1074 \<mapsto> 1]
   \<and> reduce_add (map counting (chunks 2 [1072, 1073, 1074])) \<noteq> Inr (counting [1072, 1073, 1074])
   \<and> chunked_cell 2 [1072, 1073, 1074] None = Inl NameError
   \<and> chunked_cell 2 [1072, 1073, 1074] (Some [[1072 \<mapsto> 5]]) = Inr ([[1072], [1073]], [1072 \<mapsto> 5])"
proof -
  have a: "reduce_add (map counting (chunks 2 [1072, 1073, 1074])) = Inr [1072 \<mapsto> 1, 1073 \<mapsto> 1]"
    by (simp add: chunks_example counting_def rus_symb_def Counter_def
        Counter_add_def counter_get_def fun_eq_iff)
  have b: "counting [1072, 1073, 1074] = [1072 \<mapsto> 1, 1073 \<mapsto> 1, 1074 \<mapsto> 1]"
    by (simp add: counting_def rus_symb_def Counter_def counter_get_def)
  have "[1072 \<mapsto> 1, 1073 \<mapsto> 1] (1074::nat) \<noteq> [1072 \<mapsto> 1, 1073 \<mapsto> 1, 1074 \<mapsto> (1::int)] 1074"
    by simp
  then have c: "[1072 \<mapsto> 1, 1073 \<mapsto> 1] \<noteq> [(1072::nat) \<mapsto> 1, 1073 \<mapsto> 1, 1074 \<mapsto> (1::int)]"
    by metis
  have d: "chunked_cell 2 [1072, 1073, 1074] None = Inl NameError"
    by (simp add: chunked_cell_def split: prod.splits)
  have e: "chunked_cell 2 [1072, 1073, 1074] (Some [[1072 \<mapsto> 5]]) = Inr ([[1072], [1073]], [1072 \<mapsto> 5])"
    by (simp add: chunked_cell_def chunks_example apply_async_def)
  from a b c d e chunks_example show ?thesis by simp
qed

lemma run_one_worker_two_files:
  "run first_alive (start_workers 1 [[[1072]], [[1073]]])
   = Some \<lparr>queue = [], output_queue = [[1072 \<mapsto> 1], [1073 \<mapsto> 1]], procs = [Exited]\<rparr>"
  by (simp add: run.simps start_workers_def all_exited_def first_alive_def step_def count_letters2_def
      rus_symb_def Counter_def counter_get_def lower_def lower_char_def)

text \<open>
  C1. Every parallel strategy should give the table of the sequential count; in
  particular the queue-based driver should merge one partial tally per file, and the pool
  version of \<open>count_in_dir\<close> should return the merged total. The queue-based driver takes
  one tally per worker process instead: with one worker and two one-letter files it
  returns the tally of the first file only, where the sequential count has both letters,
  and with two workers and one file it waits for a second tally for ever. The pool
  version of \<open>count_in_dir\<close> returns the list of the per-file tables, where the sequential
  \<open>count_in_dir\<close> of the same notebook returns one table.
\<close>

theorem parallel_drivers_differ_from_sequential:
  "queue_driver 1 [[[1072]], [[1073]]] first_alive = Some (Inr [1072 \<mapsto> 1])
   \<and> count_sequential [[[1072]], [[1073]]] = Inr [1072 \<mapsto> 1, 1073 \<mapsto> 1]
   \<and> queue_driver 2 [[[1072]]] first_alive = None
   \<and> count_in_dir_pool [[[1072, 1072]], [[1072]]] = Inr [[1072 \<mapsto> 1], [1072 \<mapsto> 0]]
   \<and> count_in_dir [[[1072, 1072]], [[1072]]] = [1072 \<mapsto> 1]"
proof (intro conjI)
  show "queue_driver 1 [[[1072]], [[1073]]] first_alive = Some (Inr [1072 \<mapsto> 1])"
    by (simp only: queue_driver_def run_one_worker_two_files) (simp add: get_n_def)
  show "count_sequential [[[1072]], [[1073]]] = Inr [1072 \<mapsto> 1, 1073 \<mapsto> 1]"
    by (simp add: count_sequential_def count_letters2_def rus_symb_def Counter_def
        counter_get_def lower_def lower_char_def Counter_add_def fun_eq_iff)
  show "queue_driver 2 [[[1072]]] first_alive = None"
    by (simp add: queue_driver_def get_n_def run.simps start_workers_def all_exited_def first_alive_def
        step_def count_letters2_def rus_symb_def Counter_def counter_get_def lower_def
        lower_char_def numeral_2_eq_2)
  show "count_in_dir_pool [[[1072, 1072]], [[1072]]] = Inr [[1072 \<mapsto> 1], [1072 \<mapsto> 0]]"
    by (simp add: count_in_dir_pool_def counters_count_chars_in_book_def counters_count_char_def
        alphabet_def lower_def lower_char_def)
  show "count_in_dir [[[1072, 1072]], [[1072]]] = [1072 \<mapsto> 1]"
    by (simp add: count_in_dir_def count_chars_in_book_def count_char_def re_match_def lower_def
        lower_char_def Counter_add_def fun_eq_iff counter_get_def)
qed


section \<open>Order of the results of a pool\<close>

lemma pool_run_fold:
  "fold (\<lambda>i cache. if i < length tasks then cache(i \<mapsto> f (tasks ! i)) else cache) finished c k
   = (if k \<in> set finished \<and> k < length tasks then Some (f (tasks ! k)) else c k)"
  by (induction finished arbitrary: c) auto

lemma pool_run_eq:
  "pool_run f tasks finished k
   = (if k \<in> set finished \<and> k < length tasks then Some (f (tasks ! k)) else None)"
  by (simp add: pool_run_def pool_run_fold)

lemma collect_all:
  "\<forall>j\<in>set js. cache j = Some (g j) \<Longrightarrow> collect cache js = Some (map g js)"
  by (induction js) simp_all

lemma apply_async_each_eq:
  "apply_async_each tasks xs = (tasks @ xs, [length tasks..<length tasks + length xs])"
proof (induction xs arbitrary: tasks)
  case Nil
  then show ?case by simp
next
  case (Cons x xs)
  have "[length tasks..<length tasks + Suc (length xs)]
        = length tasks # [Suc (length tasks)..<length tasks + Suc (length xs)]"
    by (rule upt_conv_Cons) simp
  with Cons.IH[of "tasks @ [x]"] show ?case
    by (simp add: apply_async_def)
qed

lemma Pool_map_eq:
  assumes "set finished = {0..<length xs}"
  shows "Pool_map f xs finished = Some (map f xs)"
proof -
  have "collect (pool_run f xs finished) [0..<length xs] = Some (map (\<lambda>j. f (xs ! j)) [0..<length xs])"
    using assms by (intro collect_all) (simp add: pool_run_eq)
  also have "map (\<lambda>j. f (xs ! j)) [0..<length xs] = map f xs"
    by (rule nth_equalityI) simp_all
  finally show ?thesis by (simp add: Pool_map_def)
qed

text \<open>
  C7. Cubing through the pool is correct in both styles: for every list of integers \<open>xs\<close>
  and every order in which the workers finish the tasks, \<open>Pool.map\<close> of \<open>cube\<close> over
  \<open>xs\<close>, and \<open>apply_async\<close> of \<open>cube\<close> for each element followed by \<open>get\<close> on each handle
  in submission order, both return the list of the cubes, in the order of \<open>xs\<close>.
\<close>

theorem cube_pool_in_order:
  assumes "set finished = {0..<length xs}"
  shows "cube_map xs finished = Some (map (\<lambda>x. x ^ 3) xs)
       \<and> cube_async xs finished = Some (map (\<lambda>x. x ^ 3) xs)"
proof -
  have "cube_async xs finished = Pool_map cube xs finished"
    by (simp add: cube_async_def apply_async_each_eq Pool_map_def)
  then show ?thesis
    using Pool_map_eq[OF assms, of cube] by (simp add: cube_map_def cube_def[abs_def])
qed

theorem cube_pool_in_order_witness:
  "set [3, 1, 0, 5, 2, 4] = {0..<length [1, 2, 3, 4, 5, 6 :: int]}
   \<and> cube_map [1, 2, 3, 4, 5, 6] [3, 1, 0, 5, 2, 4] = Some [1, 8, 27, 64, 125, 216]
   \<and> cube_async [1, 2, 3, 4, 5, 6] [3, 1, 0, 5, 2, 4] = Some [1, 8, 27, 64, 125, 216]"
proof -
  have h: "set [3, 1, 0, 5, 2, 4] = {0..<length [1, 2, 3, 4, 5, 6 :: int]}"
    by (simp add: atLeast0LessThan lessThan_Suc insert_commute eval_nat_numeral)
  show ?thesis
    using h cube_pool_in_order [OF h] by simp
qed

section \<open>Sorting tagged results\<close>

lemma fold_rand_string:
  "fold (\<lambda>x out. rand_string len x (rnd x) out) arrival acc
   = acc @ map (\<lambda>x. (x, rand_str len (rnd x))) arrival"
  by (induction arrival arbitrary: acc) (simp_all add: rand_string_def)

lemma sorted_tagged: "sorted (map (\<lambda>x. (x, g x :: ustring)) [0..<n])"
proof -
  have "sorted_wrt (<) [0..<n]" by simp
  then have "sorted_wrt (\<lambda>x y. (x, g x) \<le> (y, g y)) [0..<n]"
    by (rule sorted_wrt_mono_rel[rotated]) (simp add: less_eq_prod_def)
  then show ?thesis
    by (simp add: sorted_map)
qed

text \<open>
  C8. Attaching a position tag and sorting restores generation order: for every number
  \<open>N\<close> of workers and every permutation in which the tagged results arrive on the output
  queue, sorting the collected pairs and projecting the strings gives the strings in the
  order of the position each worker was given, so the result is the same for every arrival
  order.
\<close>

theorem sort_restores_order:
  assumes "mset arrival = mset [0..<n]"
  shows "sorted_strings n rnd arrival = Some (map (\<lambda>x. rand_str 5 (rnd x)) [0..<n])"
proof -
  let ?tag = "\<lambda>x. (x, rand_str 5 (rnd x))"
  have len: "length arrival = n"
    using assms by (metis size_mset length_upt diff_zero)
  then have res: "tagged_results n rnd arrival = Some (map ?tag arrival)"
    by (simp add: tagged_results_def fold_rand_string get_n_def)
  have "mset (map ?tag [0..<n]) = mset (map ?tag arrival)"
    using assms by (metis mset_map)
  then have "sort (map ?tag arrival) = map ?tag [0..<n]"
    by (intro properties_for_sort sorted_tagged)
  then show ?thesis
    by (simp add: sorted_strings_def res comp_def)
qed

theorem sort_restores_order_witness:
  "mset [0, 2, 1, 3] = mset [0..<4]
   \<and> sorted_strings 4 (\<lambda>x i. 7 * x + i) [0, 2, 1, 3]
       = Some (map (\<lambda>x. rand_str 5 (\<lambda>i. 7 * x + i)) [0..<4])
   \<and> map (\<lambda>x. rand_str 5 (\<lambda>i. 7 * x + i)) [0..<4]
       = [[97, 98, 99, 100, 101], [104, 105, 106, 107, 108],
          [111, 112, 113, 114, 115], [118, 119, 120, 121, 122]]"
proof -
  have h: "mset [0, 2, 1, 3] = mset [0..<4]"
    by (simp add: eval_nat_numeral)
  have v: "map (\<lambda>x. rand_str 5 (\<lambda>i. 7 * x + i)) [0..<4]
       = [[97, 98, 99, 100, 101], [104, 105, 106, 107, 108],
          [111, 112, 113, 114, 115], [118, 119, 120, 121, 122]]"
    by code_simp
  show ?thesis
    using h v sort_restores_order [OF h, of "\<lambda>x i. 7 * x + i"] by simp
qed


section \<open>Grouping by shuffle and by fold\<close>

lemma reduceby_fold:
  "distinct (map fst d0) \<Longrightarrow>
   distinct (map fst (fold (reduceby_step key binop init) seq d0)) \<and>
   map_of (fold (reduceby_step key binop init) seq d0) k
   = (if k \<in> key ` set seq \<or> map_of d0 k \<noteq> None
      then Some (fold (\<lambda>item acc. binop acc item) (filter (\<lambda>item. key item = k) seq)
                  (case map_of d0 k of None \<Rightarrow> init | Some acc \<Rightarrow> acc))
      else None)"
proof (induction seq arbitrary: d0)
  case Nil
  then show ?case by (auto split: option.splits)
next
  case (Cons item seq)
  let ?d1 = "reduceby_step key binop init item d0"
  have d1: "distinct (map fst ?d1)"
    using Cons.prems by (simp add: reduceby_step_def distinct_update)
  have m1: "map_of ?d1 = (map_of d0)(key item \<mapsto>
      binop (case map_of d0 (key item) of None \<Rightarrow> init | Some acc \<Rightarrow> acc) item)"
    by (simp add: reduceby_step_def update_conv')
  from Cons.IH[OF d1] show ?case
    by (auto simp: m1 split: option.splits)
qed

lemma reduceby_map_of:
  "map_of (reduceby key binop seq init) k
   = (if k \<in> key ` set seq
      then Some (fold (\<lambda>item acc. binop acc item) (filter (\<lambda>item. key item = k) seq) init)
      else None)"
  using reduceby_fold[of "[]" key binop init seq k] by (simp add: reduceby_def)

lemma reduceby_distinct: "distinct (map fst (reduceby key binop seq init))"
  using reduceby_fold[of "[]" key binop init seq] by (simp add: reduceby_def)

lemma fold_incr: "fold (\<lambda>item acc. incr acc item) xs a = a + int (length xs)"
  by (induction xs arbitrary: a) (simp_all add: incr_def)

lemma fold_add_snd: "fold (\<lambda>x acc. add acc (snd x)) xs a = a + sum_list (map snd xs)"
  by (induction xs arbitrary: a) (simp_all add: add_def)

lemma filter_key_distinct:
  "distinct (map fst al) \<Longrightarrow>
   filter (\<lambda>p. fst p = k) al = (case map_of al k of None \<Rightarrow> [] | Some v \<Rightarrow> [(k, v)])"
proof (induction al)
  case Nil
  then show ?case by simp
next
  case (Cons p al)
  then show ?case
    by (cases p) (auto split: option.splits simp: map_of_eq_None_iff[symmetric] filter_empty_conv
        dest: map_of_SomeD)
qed

lemma partial_counts_sum:
  "sum_list (map snd (filter (\<lambda>p. fst p = k) (concat (map (\<lambda>part. reduceby name incr part 0) js))))
   = occurrences k (concat js)" for js :: "account bag"
proof (induction js)
  case Nil
  then show ?case by (simp add: occurrences_def)
next
  case (Cons part js)
  have "sum_list (map snd (filter (\<lambda>p. fst p = k) (reduceby name incr part 0)))
        = occurrences k part"
    by (auto simp: filter_key_distinct[OF reduceby_distinct] reduceby_map_of fold_incr
        occurrences_def filter_empty_conv image_iff)
  with Cons show ?case
    by (simp add: occurrences_def)
qed

lemma partial_keys:
  "fst ` set (concat (map (\<lambda>part. reduceby name incr part (0::int)) js)) = name ` set (concat js)"
  for js :: "account bag"
proof -
  have "fst ` set (reduceby name incr part (0::int)) = name ` set part" for part :: "account list"
  proof -
    have "fst ` set (reduceby name incr part (0::int)) = dom (map_of (reduceby name incr part 0))"
      by (simp add: dom_map_of_conv_image_fst)
    also have "\<dots> = name ` set part"
      by (auto simp: dom_def reduceby_map_of)
    finally show ?thesis .
  qed
  then show ?thesis
    by (induction js) (simp_all add: image_Un)
qed

lemma foldby_set:
  "set (name_counts_foldby js) = (\<lambda>k. (k, occurrences k (concat js))) ` name ` set (concat js)"
proof -
  let ?parts = "concat (map (\<lambda>part. reduceby name incr part (0::int)) js)"
  let ?d = "reduceby fst (\<lambda>acc x. add acc (snd x)) ?parts (0::int)"
  have m: "map_of ?d k = (if k \<in> name ` set (concat js) then Some (occurrences k (concat js)) else None)" for k
    by (simp only: reduceby_map_of partial_keys fold_add_snd partial_counts_sum) simp
  have "set ?d = {(k, v). map_of ?d k = Some v}"
    using reduceby_distinct[of fst "\<lambda>acc x. add acc (snd x)" ?parts 0] by auto
  also have "\<dots> = (\<lambda>k. (k, occurrences k (concat js))) ` name ` set (concat js)"
    by (auto simp: m split: if_splits simp del: set_concat)
  finally show ?thesis
    by (simp add: name_counts_foldby_def compute_def foldby_def)
qed

lemma groupby_set:
  "set (name_counts_groupby js) = (\<lambda>k. (k, occurrences k (concat js))) ` name ` set (concat js)"
  by (simp add: name_counts_groupby_def compute_def starmap_def groupby_def occurrences_def image_image)

lemma occurrences_mset: "mset xs = mset ys \<Longrightarrow> occurrences k xs = occurrences k ys"
  unfolding occurrences_def by (metis mset_filter size_mset)

text \<open>
  C6. The shuffle-based grouping and the streaming combine-reduce grouping agree: for
  every bag of records with a \<open>name\<close> field and every partitioning of it (\<open>js\<close> and \<open>js'\<close>
  are two partitionings of the same bag), \<open>groupby\<close> on the name followed by mapping each
  group to the pair of the name and the length of the group gives the same set of pairs as
  \<open>foldby\<close> with key \<open>name\<close>, \<open>binop = incr\<close>, \<open>initial = 0\<close>, \<open>combine = add\<close> and
  \<open>combine_initial = 0\<close>.
\<close>

theorem groupby_foldby_agree:
  assumes "mset (concat js) = mset (concat js')"
  shows "set (name_counts_groupby js) = set (name_counts_foldby js')"
proof -
  have "set (concat js) = set (concat js')"
    using assms by (rule mset_eq_setD)
  then show ?thesis
    by (simp add: groupby_set foldby_set occurrences_mset[OF assms])
qed

theorem groupby_foldby_agree_witness:
  "mset (concat [[\<lparr>id' = 0, name = ''Dan'', transactions = []\<rparr>,
                  \<lparr>id' = 1, name = ''Bob'', transactions = []\<rparr>],
                 [\<lparr>id' = 2, name = ''Dan'', transactions = []\<rparr>]])
   = mset (concat [[\<lparr>id' = 2, name = ''Dan'', transactions = []\<rparr>],
                   [\<lparr>id' = 0, name = ''Dan'', transactions = []\<rparr>],
                   [\<lparr>id' = 1, name = ''Bob'', transactions = []\<rparr>]])
   \<and> set (name_counts_groupby [[\<lparr>id' = 0, name = ''Dan'', transactions = []\<rparr>,
                  \<lparr>id' = 1, name = ''Bob'', transactions = []\<rparr>],
                 [\<lparr>id' = 2, name = ''Dan'', transactions = []\<rparr>]])
   = set (name_counts_foldby [[\<lparr>id' = 2, name = ''Dan'', transactions = []\<rparr>],
                   [\<lparr>id' = 0, name = ''Dan'', transactions = []\<rparr>],
                   [\<lparr>id' = 1, name = ''Bob'', transactions = []\<rparr>]])
   \<and> name_counts_foldby [[\<lparr>id' = 2, name = ''Dan'', transactions = []\<rparr>],
                   [\<lparr>id' = 0, name = ''Dan'', transactions = []\<rparr>],
                   [\<lparr>id' = 1, name = ''Bob'', transactions = []\<rparr>]]
   = [(''Dan'', 2), (''Bob'', 1)]"
proof -
  have h: "mset (concat [[\<lparr>id' = 0, name = ''Dan'', transactions = []\<rparr>,
                  \<lparr>id' = 1, name = ''Bob'', transactions = []\<rparr>],
                 [\<lparr>id' = 2, name = ''Dan'', transactions = []\<rparr>]])
   = mset (concat [[\<lparr>id' = 2, name = ''Dan'', transactions = []\<rparr>],
                   [\<lparr>id' = 0, name = ''Dan'', transactions = []\<rparr>],
                   [\<lparr>id' = 1, name = ''Bob'', transactions = []\<rparr>]])"
    by simp
  have v: "name_counts_foldby [[\<lparr>id' = 2, name = ''Dan'', transactions = []\<rparr>],
                   [\<lparr>id' = 0, name = ''Dan'', transactions = []\<rparr>],
                   [\<lparr>id' = 1, name = ''Bob'', transactions = []\<rparr>]]
   = [(''Dan'', 2), (''Bob'', 1)]"
    by (simp add: name_counts_foldby_def compute_def foldby_def reduceby_def reduceby_step_def
        incr_def add_def)
  from h v groupby_foldby_agree [OF h] show ?thesis
    by blast
qed

end
